theory Spec2Isabelle
  imports Main "HOL-Library.Sublist"
begin

section \<open>Strings as the scripts use them\<close>

text \<open>
  Both scripts (\<^verbatim>\<open>simplify_better.py\<close> and \<^verbatim>\<open>simplify_comments.py\<close>) read a file with
  \<^verbatim>\<open>readlines()\<close> and work on each line with \<^verbatim>\<open>str.strip\<close>, \<^verbatim>\<open>str.startswith\<close>, the
  \<^verbatim>\<open>in\<close> operator and the \<^verbatim>\<open>re\<close> module. A line is a \<^typ>\<open>string\<close>; a character stands for
  the code point of the same number, so the model covers code points below 256.
\<close>

abbreviation nl :: char where
  "nl \<equiv> CHR 0x0A"

definition isspace :: "char \<Rightarrow> bool" where
  \<comment> \<open>\<^verbatim>\<open>str.isspace\<close> on one character; the regular expression class \<^verbatim>\<open>\s\<close> is the same set.\<close>
  "isspace c = (c \<in> set [CHR 0x09, CHR 0x0A, CHR 0x0B, CHR 0x0C, CHR 0x0D,
                         CHR 0x1C, CHR 0x1D, CHR 0x1E, CHR 0x1F, CHR 0x20,
                         CHR 0x85, CHR 0xA0])"

definition strip :: "string \<Rightarrow> string" where
  \<comment> \<open>\<^verbatim>\<open>line.strip()\<close>\<close>
  "strip s = rev (dropWhile isspace (rev (dropWhile isspace s)))"

definition startswith :: "string \<Rightarrow> string \<Rightarrow> bool" where
  \<comment> \<open>\<^verbatim>\<open>s.startswith(p)\<close>\<close>
  "startswith s p = (take (length p) s = p)"

fun substr_in :: "string \<Rightarrow> string \<Rightarrow> bool" where
  \<comment> \<open>\<^verbatim>\<open>p in s\<close>\<close>
  "substr_in p [] = (p = [])"
| "substr_in p (c # s) = (startswith (c # s) p \<or> substr_in p s)"

section \<open>The fragment of \<^verbatim>\<open>re\<close> the scripts use\<close>

text \<open>
  The four patterns of the scripts are sequences of: a literal, a greedy repetition
  \<^verbatim>\<open>c{n,}\<close> of a character class (\<^verbatim>\<open>\s*\<close>, \<^verbatim>\<open>.*\<close>, \<^verbatim>\<open>={3,}\<close>), a group of literal alternatives, and
  \<^verbatim>\<open>$\<close>. The matcher is the backtracking one of \<^verbatim>\<open>re\<close>: for each atom it lists the rests of
  the input after every way the atom can match, in the order \<^verbatim>\<open>re\<close> tries them (a greedy
  repetition tries the longest run first, an alternation its branches from left to right).
\<close>

datatype cls = Space | Dot | Chr char

fun in_cls :: "cls \<Rightarrow> char \<Rightarrow> bool" where
  "in_cls Space c = isspace c"
| "in_cls Dot c = (c \<noteq> nl)"
| "in_cls (Chr a) c = (c = a)"

datatype atom = Lit string | Rep nat cls | Alt "string list" | Eol

type_synonym regex = "atom list"

fun atom_m :: "atom \<Rightarrow> string \<Rightarrow> string list" where
  "atom_m (Lit l) s = (if startswith s l then [drop (length l) s] else [])"
| "atom_m (Rep n c) s =
     map (\<lambda>k. drop k s) (rev [n ..< Suc (length (takeWhile (in_cls c) s))])"
| "atom_m (Alt ls) s = map (\<lambda>l. drop (length l) s) (filter (startswith s) ls)"
| "atom_m Eol s = (if s = [] \<or> s = [nl] then [s] else [])"

fun seq_m :: "regex \<Rightarrow> string \<Rightarrow> string list" where
  "seq_m [] s = [s]"
| "seq_m (a # as) s = concat (map (seq_m as) (atom_m a s))"

definition re_match :: "regex \<Rightarrow> string \<Rightarrow> bool" where
  \<comment> \<open>\<^verbatim>\<open>re.match(p, s)\<close> read as a truth value: a match that starts at position 0, where
      the leading \<^verbatim>\<open>^\<close> of the scripts' patterns holds.\<close>
  "re_match p s = (seq_m p s \<noteq> [])"

fun re_sub_empty :: "regex \<Rightarrow> string \<Rightarrow> string" where
  \<comment> \<open>\<^verbatim>\<open>re.sub(p, '', s)\<close>: scan from the left; where the pattern matches, leave the match
      out and go on after it; otherwise keep the character and move one position on.\<close>
  "re_sub_empty p [] = []"
| "re_sub_empty p (c # t) =
     (case seq_m p (c # t) of
        [] \<Rightarrow> c # re_sub_empty p t
      | r # _ \<Rightarrow> if length r < Suc (length t) then re_sub_empty p r
                 else c # re_sub_empty p t)"

subsection \<open>The patterns\<close>

definition divider_better :: regex where
  \<comment> \<open>\<^verbatim>\<open>^\s*//\s*={3,}.*={3,}\s*$\<close>\<close>
  "divider_better =
     [Rep 0 Space, Lit ''//'', Rep 0 Space, Rep 3 (Chr (CHR ''='')), Rep 0 Dot,
      Rep 3 (Chr (CHR ''='')), Rep 0 Space, Eol]"

definition divider_comments :: regex where
  \<comment> \<open>\<^verbatim>\<open>^\s*//\s*={3,}\<close>\<close>
  "divider_comments = [Rep 0 Space, Lit ''//'', Rep 0 Space, Rep 3 (Chr (CHR ''=''))]"

definition noise_markers :: "string list" where
  "noise_markers =
     [''Method calls:'', ''Calls'', ''Note:'', ''Why:'', ''Problem:'', ''NEW APPROACH:'',
      ''OLD APPROACH:'', ''FIXED:'', ''Uses'', ''This demonstrates'', ''Benefits:'',
      ''Algorithm:'', ''Time Complexity:'', ''Space Complexity:'', ''Pattern:'',
      ''Demonstrates:'']"

definition noise_comments :: regex where
  \<comment> \<open>\<^verbatim>\<open>^\s*//(Method calls:|Calls|Note:|...|Demonstrates:)\<close>: no \<^verbatim>\<open>\s*\<close> after \<^verbatim>\<open>//\<close>.\<close>
  "noise_comments = [Rep 0 Space, Lit ''//'', Alt noise_markers]"

definition action_markers :: "string list" where
  "action_markers =
     [''Format:'', ''Extract'', ''Track'', ''Record'', ''Mark'', ''Add to'', ''Shift'',
      ''Continue'', ''Found'', ''Insert'', ''Safe'', ''Return'', ''Get'', ''Set'', ''Create'',
      ''Update'', ''Delete'', ''Find'', ''Check'', ''Display'', ''Process'', ''Handle'',
      ''Show'', ''Print'']"

definition inline_comments :: regex where
  \<comment> \<open>\<^verbatim>\<open>\s*//\s*(Format:|Extract|...|Print)\<close>: nothing after the group.\<close>
  "inline_comments = [Rep 0 Space, Lit ''//'', Rep 0 Space, Alt action_markers]"

section \<open>The two passes\<close>

text \<open>
  The loop variables of \<^verbatim>\<open>simplify_java_file\<close> are a record; the loop body is a function
  from the record and the line to the record, and the loop is a left fold over the lines.
  \<^verbatim>\<open>simplify_comments.py\<close> has \<^verbatim>\<open>in_javadoc\<close>, \<^verbatim>\<open>skip_next_blank\<close> and \<^verbatim>\<open>result\<close>;
  \<^verbatim>\<open>simplify_better.py\<close> has \<^verbatim>\<open>in_block_comment\<close> as well.
\<close>

record scan_state =
  in_javadoc :: bool
  skip_next_blank :: bool
  result :: "string list"

record better_state = scan_state +
  in_block_comment :: bool

definition comments_init :: scan_state where
  "comments_init = \<lparr>in_javadoc = False, skip_next_blank = False, result = []\<rparr>"

definition comments_body :: "scan_state \<Rightarrow> string \<Rightarrow> scan_state" where
  "comments_body st line =
     (let stripped = strip line in
      if startswith stripped ''/**'' then st\<lparr>in_javadoc := True\<rparr>
      else if in_javadoc st \<and> substr_in ''*/'' stripped
        then st\<lparr>in_javadoc := False, skip_next_blank := True\<rparr>
      else if in_javadoc st then st
      else if skip_next_blank st \<and> stripped = [] then st\<lparr>skip_next_blank := False\<rparr>
      else if re_match divider_comments stripped then st\<lparr>skip_next_blank := False\<rparr>
      else if re_match noise_comments stripped then st\<lparr>skip_next_blank := False\<rparr>
      else st\<lparr>skip_next_blank := False,
              result := result st @ [re_sub_empty inline_comments line]\<rparr>)"

definition simplify_comments :: "string list \<Rightarrow> string list" where
  "simplify_comments lines = result (foldl comments_body comments_init lines)"

definition better_init :: better_state where
  "better_init = \<lparr>in_javadoc = False, skip_next_blank = False, result = [],
                   in_block_comment = False\<rparr>"

definition better_body :: "better_state \<Rightarrow> string \<Rightarrow> better_state" where
  "better_body st line =
     (let stripped = strip line in
      if startswith stripped ''/**'' then st\<lparr>in_javadoc := True\<rparr>
      else if (in_javadoc st \<or> in_block_comment st) \<and> substr_in ''*/'' stripped
        then st\<lparr>in_javadoc := False, in_block_comment := False, skip_next_blank := True\<rparr>
      else if in_javadoc st \<or> in_block_comment st then st
      else if skip_next_blank st \<and> stripped = [] then st\<lparr>skip_next_blank := False\<rparr>
      else if re_match divider_better stripped then st\<lparr>skip_next_blank := False\<rparr>
      else st\<lparr>skip_next_blank := False, result := result st @ [line]\<rparr>)"

definition simplify_better :: "string list \<Rightarrow> string list" where
  "simplify_better lines = result (foldl better_body better_init lines)"

section \<open>Notions the properties are stated with\<close>

text \<open>
  The state in which line \<open>i\<close> is processed is the one the loop reaches after the lines
  before it. Line \<open>i\<close> produces an output line when its iteration changes \<^verbatim>\<open>result\<close>,
  which the loop only does by \<^verbatim>\<open>result.append\<close>; the output line then lands at the position
  equal to the number of lines appended before.
\<close>

definition comments_before :: "string list \<Rightarrow> nat \<Rightarrow> scan_state" where
  "comments_before lines i = foldl comments_body comments_init (take i lines)"

definition better_before :: "string list \<Rightarrow> nat \<Rightarrow> better_state" where
  "better_before lines i = foldl better_body better_init (take i lines)"

definition comments_emits :: "scan_state \<Rightarrow> string \<Rightarrow> bool" where
  "comments_emits st line = (result (comments_body st line) \<noteq> result st)"

definition better_emits :: "better_state \<Rightarrow> string \<Rightarrow> bool" where
  "better_emits st line = (result (better_body st line) \<noteq> result st)"

definition better_kept :: "string list \<Rightarrow> nat list" where
  "better_kept lines =
     filter (\<lambda>i. better_emits (better_before lines i) (lines ! i)) [0 ..< length lines]"

text \<open>
  A divider in the words of the specification: the trimmed line is \<^verbatim>\<open>//\<close>, optional
  white space, a run of at least three \<^verbatim>\<open>=\<close>, a label that may be empty, and a closing run of
  at least three \<^verbatim>\<open>=\<close>. The second notion has an opening run only.
\<close>

definition two_runs :: "string \<Rightarrow> bool" where
  "two_runs s = (\<exists>gap n label m. s = ''//'' @ gap @ replicate n (CHR ''='') @ label
                     @ replicate m (CHR ''='') \<and> list_all isspace gap \<and> 3 \<le> n \<and> 3 \<le> m)"

definition one_run :: "string \<Rightarrow> bool" where
  "one_run s = (\<exists>gap n rest. s = ''//'' @ gap @ replicate n (CHR ''='') @ rest
                     \<and> list_all isspace gap \<and> 3 \<le> n)"

text \<open>
  A pattern matches somewhere in a string when it matches at the start of one of the
  string's suffixes (what \<^verbatim>\<open>re.search\<close> tests).
\<close>

fun matches_somewhere :: "regex \<Rightarrow> string \<Rightarrow> bool" where
  "matches_somewhere p [] = re_match p []"
| "matches_somewhere p (c # t) = (re_match p (c # t) \<or> matches_somewhere p t)"

text \<open>
  A plain line is one that no rule of a pass applies to outside a comment: its trimmed
  content does not open a doc comment, is no divider and (richer pass) no noise comment, and
  (richer pass) the inline pattern matches nowhere in the line.
\<close>

definition plain_comments :: "string \<Rightarrow> bool" where
  "plain_comments line =
     (\<not> startswith (strip line) ''/**''
      \<and> \<not> re_match divider_comments (strip line)
      \<and> \<not> re_match noise_comments (strip line)
      \<and> \<not> matches_somewhere inline_comments line)"

definition plain_better :: "string \<Rightarrow> bool" where
  "plain_better line =
     (\<not> startswith (strip line) ''/**'' \<and> \<not> re_match divider_better (strip line))"

section \<open>Evaluation on concrete lines\<close>

lemmas eval_defs =
  simplify_comments_def comments_init_def comments_body_def
  simplify_better_def better_init_def better_body_def
  strip_def isspace_def startswith_def re_match_def
  divider_comments_def divider_better_def noise_comments_def noise_markers_def
  inline_comments_def action_markers_def

section \<open>The loop bodies\<close>

lemma startswith_Nil [simp]: "startswith s []"
  by (simp add: startswith_def)

lemma comments_body_result:
  "result (comments_body st l) =
     (if comments_emits st l then result st @ [re_sub_empty inline_comments l] else result st)"
  by (simp add: comments_emits_def comments_body_def Let_def)

lemma better_body_result:
  "result (better_body st l) = (if better_emits st l then result st @ [l] else result st)"
  by (simp add: better_emits_def better_body_def Let_def)

lemma fold_result_prefix:
  assumes "\<And>st l. prefix (result st) (result (body st l))"
  shows "prefix (result st) (result (foldl body st ls))"
proof (induction ls arbitrary: st)
  case Nil
  show ?case by simp
next
  case (Cons l ls)
  have "prefix (result st) (result (body st l))" by (rule assms)
  also have "prefix (result (body st l)) (result (foldl body (body st l) ls))" by (rule Cons.IH)
  finally show ?case by simp
qed

lemma comments_body_prefix: "prefix (result st) (result (comments_body st l))"
  by (simp add: comments_body_result)

lemma better_body_prefix: "prefix (result st) (result (better_body st l))"
  by (simp add: better_body_result)

lemma comments_before_Suc:
  "i < length lines \<Longrightarrow>
     comments_before lines (Suc i) = comments_body (comments_before lines i) (lines ! i)"
  by (simp add: comments_before_def take_Suc_conv_app_nth)

lemma better_before_Suc:
  "i < length lines \<Longrightarrow>
     better_before lines (Suc i) = better_body (better_before lines i) (lines ! i)"
  by (simp add: better_before_def take_Suc_conv_app_nth)

lemma comments_before_mono:
  assumes "i \<le> j"
  shows "prefix (result (comments_before lines i)) (result (comments_before lines j))"
proof -
  have "take j lines = take i lines @ drop i (take j lines)"
    using assms by (metis append_take_drop_id min.absorb2 take_take min.commute)
  then have "comments_before lines j = foldl comments_body (comments_before lines i) (drop i (take j lines))"
    by (metis comments_before_def foldl_append)
  then show ?thesis
    using fold_result_prefix [of comments_body, OF comments_body_prefix] by simp
qed

lemma better_before_mono:
  assumes "i \<le> j"
  shows "prefix (result (better_before lines i)) (result (better_before lines j))"
proof -
  have "take j lines = take i lines @ drop i (take j lines)"
    using assms by (metis append_take_drop_id min.absorb2 take_take min.commute)
  then have "better_before lines j = foldl better_body (better_before lines i) (drop i (take j lines))"
    by (metis better_before_def foldl_append)
  then show ?thesis
    using fold_result_prefix [of better_body, OF better_body_prefix] by simp
qed

lemma comments_before_all: "length lines \<le> j \<Longrightarrow> result (comments_before lines j) = simplify_comments lines"
  by (simp add: comments_before_def simplify_comments_def)

lemma better_before_all: "length lines \<le> j \<Longrightarrow> result (better_before lines j) = simplify_better lines"
  by (simp add: better_before_def simplify_better_def)

lemma comments_emit_at:
  assumes "i < length lines" "comments_emits (comments_before lines i) (lines ! i)"
  shows "length (result (comments_before lines i)) < length (simplify_comments lines)
       \<and> simplify_comments lines ! length (result (comments_before lines i))
           = re_sub_empty inline_comments (lines ! i)
       \<and> length (result (comments_before lines (Suc i))) = Suc (length (result (comments_before lines i)))"
proof -
  let ?r = "result (comments_before lines i)"
  have s: "result (comments_before lines (Suc i)) = ?r @ [re_sub_empty inline_comments (lines ! i)]"
    using assms by (simp add: comments_before_Suc comments_body_result)
  have "prefix (result (comments_before lines (Suc i))) (result (comments_before lines (length lines)))"
    using assms(1) by (intro comments_before_mono) simp
  then obtain zs where "simplify_comments lines = (?r @ [re_sub_empty inline_comments (lines ! i)]) @ zs"
    unfolding s by (auto simp: prefix_def comments_before_all)
  then show ?thesis using s by (simp add: nth_append)
qed

lemma better_emit_at:
  assumes "i < length lines" "better_emits (better_before lines i) (lines ! i)"
  shows "length (result (better_before lines i)) < length (simplify_better lines)
       \<and> simplify_better lines ! length (result (better_before lines i)) = lines ! i
       \<and> length (result (better_before lines (Suc i))) = Suc (length (result (better_before lines i)))"
proof -
  let ?r = "result (better_before lines i)"
  have s: "result (better_before lines (Suc i)) = ?r @ [lines ! i]"
    using assms by (simp add: better_before_Suc better_body_result)
  have "prefix (result (better_before lines (Suc i))) (result (better_before lines (length lines)))"
    using assms(1) by (intro better_before_mono) simp
  then obtain zs where "simplify_better lines = (?r @ [lines ! i]) @ zs"
    unfolding s by (auto simp: prefix_def better_before_all)
  then show ?thesis using s by (simp add: nth_append)
qed

lemma better_kept_map:
  "result (better_before lines k) =
     map (\<lambda>i. lines ! i)
       (filter (\<lambda>i. better_emits (better_before lines i) (lines ! i)) [0 ..< min k (length lines)])"
proof (induction k)
  case 0
  show ?case by (simp add: better_before_def better_init_def)
next
  case (Suc k)
  show ?case
  proof (cases "k < length lines")
    case True
    then have m: "min (Suc k) (length lines) = Suc k" "min k (length lines) = k" by simp_all
    show ?thesis
      using Suc.IH True unfolding m by (simp add: better_before_Suc better_body_result)
  next
    case False
    then have "better_before lines (Suc k) = better_before lines k"
      by (simp add: better_before_def)
    moreover have "min (Suc k) (length lines) = min k (length lines)" using False by simp
    ultimately show ?thesis using Suc.IH by simp
  qed
qed

lemma map_nth_filter_subseq: "subseq (map (\<lambda>i. xs ! i) (filter P [0 ..< length xs])) xs"
proof -
  have "subseq (map (\<lambda>i. xs ! i) (filter P [0 ..< length xs])) (map (\<lambda>i. xs ! i) [0 ..< length xs])"
    by (intro subseq_map) simp
  then show ?thesis by (simp add: map_nth)
qed

section \<open>Inline stripping and noise comments on the specification's examples\<close>

text \<open>
  Claim C1 (inline fragment stripping, richer pass), evaluated on the specification's own
  example. The claim has \<^verbatim>\<open>x = 5; // Set the value\<close> become \<^verbatim>\<open>x = 5; \<close>: the comment from its
  marker to the end of the line is removed. The pattern of \<^verbatim>\<open>re.sub\<close> ends with the marker
  group, so only the white space before \<^verbatim>\<open>//\<close>, the \<^verbatim>\<open>//\<close>, the white space after it and the
  marker word are removed; the rest of the comment stays in the line as if it were code.
  The line \<^verbatim>\<open>x = 5; // Important: keep\<close> is unchanged, as the claim says.
\<close>

theorem inline_strip_keeps_comment_text:
  "simplify_comments [''x = 5; // Set the value'' @ [nl]] = [''x = 5; the value'' @ [nl]]
   \<and> simplify_comments [''x = 5; // Set the value''] = [''x = 5; the value'']
   \<and> simplify_comments [''x = 5; // Important: keep'' @ [nl]]
       = [''x = 5; // Important: keep'' @ [nl]]"
  by (simp add: eval_defs)

text \<open>
  Claim C2 (noise comments, richer pass), evaluated on the specification's own example.
  The claim has \<^verbatim>\<open>// Note: this explains things\<close> dropped. The noise pattern allows no white
  space between \<^verbatim>\<open>//\<close> and the marker, so this line is kept; the same comment without the
  space is dropped. \<^verbatim>\<open>// Important: keep me\<close> is kept, as the claim says.
\<close>

theorem noise_comment_with_space_kept:
  "simplify_comments [''// Note: this explains things'' @ [nl]]
     = [''// Note: this explains things'' @ [nl]]
   \<and> simplify_comments [''//Note: this explains things'' @ [nl]] = []
   \<and> simplify_comments [''// Important: keep me'' @ [nl]] = [''// Important: keep me'' @ [nl]]"
  by (simp add: eval_defs)

section \<open>Order of the surviving lines\<close>

text \<open>
  Claim C8 (order preservation, both passes). Let line \<open>i\<close> come before line \<open>j\<close> in the
  input, and let both produce an output line (their iterations append to \<^verbatim>\<open>result\<close>). The
  output line of a line stands at the position given by the number of lines appended before
  its iteration. Then the position of the output line of \<open>i\<close> is smaller than that of \<open>j\<close>,
  both positions are inside the output, and the output holds there what the two iterations
  appended: the line after inline stripping in the richer pass, the line itself in the
  simpler pass.
\<close>

theorem order_preservation:
  assumes "i < j" and "j < length lines"
  shows "(comments_emits (comments_before lines i) (lines ! i) \<and>
          comments_emits (comments_before lines j) (lines ! j) \<longrightarrow>
            length (result (comments_before lines i)) < length (result (comments_before lines j))
          \<and> length (result (comments_before lines j)) < length (simplify_comments lines)
          \<and> simplify_comments lines ! length (result (comments_before lines i))
              = re_sub_empty inline_comments (lines ! i)
          \<and> simplify_comments lines ! length (result (comments_before lines j))
              = re_sub_empty inline_comments (lines ! j))
       \<and> (better_emits (better_before lines i) (lines ! i) \<and>
          better_emits (better_before lines j) (lines ! j) \<longrightarrow>
            length (result (better_before lines i)) < length (result (better_before lines j))
          \<and> length (result (better_before lines j)) < length (simplify_better lines)
          \<and> simplify_better lines ! length (result (better_before lines i)) = lines ! i
          \<and> simplify_better lines ! length (result (better_before lines j)) = lines ! j)"
proof -
  have i: "i < length lines" and ij: "Suc i \<le> j" using assms by simp_all
  have c: "length (result (comments_before lines (Suc i))) \<le> length (result (comments_before lines j))"
    using comments_before_mono [OF ij, of lines] by (rule prefix_length_le)
  have b: "length (result (better_before lines (Suc i))) \<le> length (result (better_before lines j))"
    using better_before_mono [OF ij, of lines] by (rule prefix_length_le)
  show ?thesis
    using comments_emit_at [OF i] comments_emit_at [OF assms(2)]
      better_emit_at [OF i] better_emit_at [OF assms(2)] c b
    by auto
qed

theorem order_preservation_witness:
  "length (result (comments_before [''a'', ''// ==== b'', ''c // Get d''] 0))
     < length (result (comments_before [''a'', ''// ==== b'', ''c // Get d''] 2))
   \<and> simplify_comments [''a'', ''// ==== b'', ''c // Get d''] ! 0 = ''a''
   \<and> simplify_comments [''a'', ''// ==== b'', ''c // Get d''] ! 1 = ''c d''
   \<and> length (result (better_before [''a'', ''// ==== b'', ''c // Get d''] 0))
     < length (result (better_before [''a'', ''// ==== b'', ''c // Get d''] 2))
   \<and> simplify_better [''a'', ''// ==== b'', ''c // Get d''] ! 0 = ''a''
   \<and> simplify_better [''a'', ''// ==== b'', ''c // Get d''] ! 2 = ''c // Get d''"
  using order_preservation [of 0 2 "[''a'', ''// ==== b'', ''c // Get d'']"]
  by (simp add: comments_before_def better_before_def comments_emits_def better_emits_def
      eval_defs)

section \<open>The simpler pass only drops lines\<close>

text \<open>
  Claim C10 (simpler pass). The output is the list of the input lines at the indices whose
  iteration appends, in increasing order of index: every output line is the input line it
  came from, unedited. So the output is a subsequence of the input.
\<close>

theorem better_only_drops:
  "simplify_better lines = map (\<lambda>i. lines ! i) (better_kept lines)
   \<and> sorted_wrt (<) (better_kept lines)
   \<and> subseq (simplify_better lines) lines"
proof -
  have m: "simplify_better lines = map (\<lambda>i. lines ! i) (better_kept lines)"
    using better_kept_map [of lines "length lines"]
    by (simp add: better_before_all better_kept_def)
  have "sorted_wrt (<) (better_kept lines)"
    unfolding better_kept_def by (intro sorted_wrt_filter) simp
  moreover have "subseq (simplify_better lines) lines"
    unfolding m better_kept_def by (rule map_nth_filter_subseq)
  ultimately show ?thesis using m by simp
qed

section \<open>Doc comments: opener, closer, and the lines between\<close>

lemma comments_inside_step:
  assumes "in_javadoc st" "\<not> substr_in ''*/'' (strip x)"
  shows "comments_body st x = st"
  using assms by (cases st) (simp add: comments_body_def Let_def)

lemma comments_inside_fold:
  assumes "in_javadoc st" "list_all (\<lambda>x. \<not> substr_in ''*/'' (strip x)) ls"
  shows "foldl comments_body st ls = st"
  using assms by (induction ls) (simp_all add: comments_inside_step)

lemma comments_inside_drop:
  assumes "in_javadoc st"
  shows "result (comments_body st x) = result st"
  using assms by (simp add: comments_body_def Let_def)

lemma better_inside_step:
  assumes "in_javadoc st \<or> in_block_comment st" "\<not> substr_in ''*/'' (strip x)"
  shows "(in_javadoc (better_body st x) \<or> in_block_comment (better_body st x))
       \<and> result (better_body st x) = result st"
  using assms by (auto simp add: better_body_def Let_def)

lemma better_inside_fold:
  assumes "in_javadoc st \<or> in_block_comment st"
    "list_all (\<lambda>x. \<not> substr_in ''*/'' (strip x)) ls"
  shows "(in_javadoc (foldl better_body st ls) \<or> in_block_comment (foldl better_body st ls))
       \<and> result (foldl better_body st ls) = result st"
  using assms
proof (induction ls arbitrary: st)
  case Nil
  then show ?case by simp
next
  case (Cons x ls)
  from Cons.prems have x: "\<not> substr_in ''*/'' (strip x)"
    and ls: "list_all (\<lambda>x. \<not> substr_in ''*/'' (strip x)) ls" by simp_all
  note s = better_inside_step [OF Cons.prems(1) x]
  from Cons.IH [OF conjunct1 [OF s] ls] s show ?case by simp
qed

lemma better_inside_drop:
  assumes "in_javadoc st \<or> in_block_comment st"
  shows "result (better_body st x) = result st"
  using assms by (auto simp add: better_body_def Let_def)

lemma comments_no_opener_fold:
  assumes "list_all (\<lambda>x. \<not> startswith (strip x) ''/**'') ls" "\<not> in_javadoc st"
  shows "\<not> in_javadoc (foldl comments_body st ls)"
  using assms
proof (induction ls arbitrary: st)
  case Nil
  then show ?case by simp
next
  case (Cons x ls)
  from Cons.prems have "\<not> in_javadoc (comments_body st x)"
    by (simp add: comments_body_def Let_def)
  with Cons show ?case by simp
qed

text \<open>
  Claim C9 (both passes). A line whose trimmed content starts with \<^verbatim>\<open>/**\<close> is consumed by the
  opener check, whatever else it holds (a \<^verbatim>\<open>*/\<close> on the same line included): the only effect
  is that \<^verbatim>\<open>in_javadoc\<close> is set, so the scanner is in block-comment state afterwards. From
  there, the lines \<open>ls\<close> that hold no \<^verbatim>\<open>*/\<close> and the line after them (the next one that holds
  \<^verbatim>\<open>*/\<close>, when it does) are all dropped: \<^verbatim>\<open>result\<close> is what it was before the opener line.
  The input \<^verbatim>\<open>/** a */\<close>, \<^verbatim>\<open>code\<close> gives the empty output.
\<close>

theorem one_line_doc_comment:
  assumes "startswith (strip line) ''/**''"
    and "list_all (\<lambda>x. \<not> substr_in ''*/'' (strip x)) ls"
  shows "comments_body cs line = cs\<lparr>in_javadoc := True\<rparr>
       \<and> better_body bs line = bs\<lparr>in_javadoc := True\<rparr>
       \<and> result (foldl comments_body cs (line # ls @ [closer])) = result cs
       \<and> result (foldl better_body bs (line # ls @ [closer])) = result bs
       \<and> simplify_comments [''/** a */'' @ [nl], ''code'' @ [nl]] = []
       \<and> simplify_better [''/** a */'' @ [nl], ''code'' @ [nl]] = []"
proof -
  have c: "comments_body cs line = cs\<lparr>in_javadoc := True\<rparr>"
    using assms(1) by (simp add: comments_body_def)
  have b: "better_body bs line = bs\<lparr>in_javadoc := True\<rparr>"
    using assms(1) by (simp add: better_body_def)
  have "foldl comments_body (cs\<lparr>in_javadoc := True\<rparr>) ls = cs\<lparr>in_javadoc := True\<rparr>"
    using assms(2) by (intro comments_inside_fold) simp_all
  then have cr: "result (foldl comments_body cs (line # ls @ [closer])) = result cs"
    using c by (simp add: comments_inside_drop)
  have "(in_javadoc (foldl better_body (bs\<lparr>in_javadoc := True\<rparr>) ls)
          \<or> in_block_comment (foldl better_body (bs\<lparr>in_javadoc := True\<rparr>) ls))
        \<and> result (foldl better_body (bs\<lparr>in_javadoc := True\<rparr>) ls) = result (bs\<lparr>in_javadoc := True\<rparr>)"
    using assms(2) by (intro better_inside_fold) simp_all
  then have br: "result (foldl better_body bs (line # ls @ [closer])) = result bs"
    using b by (simp add: better_inside_drop)
  have "simplify_comments [''/** a */'' @ [nl], ''code'' @ [nl]] = []"
    by (simp add: eval_defs)
  moreover have "simplify_better [''/** a */'' @ [nl], ''code'' @ [nl]] = []"
    by (simp add: eval_defs)
  ultimately show ?thesis using c b cr br by simp
qed

theorem one_line_doc_comment_witness:
  "comments_body comments_init ''/** a */'' = comments_init\<lparr>in_javadoc := True\<rparr>
   \<and> better_body better_init ''/** a */'' = better_init\<lparr>in_javadoc := True\<rparr>
   \<and> result (foldl comments_body comments_init [''/** a */'', ''int x;'', ''y(); */ z();'']) = []
   \<and> result (foldl better_body better_init [''/** a */'', ''int x;'', ''y(); */ z();'']) = []"
  using one_line_doc_comment [of "''/** a */''" "[''int x;'']" comments_init better_init
      "''y(); */ z();''"]
  by (simp add: eval_defs)

section \<open>The closer line\<close>

text \<open>
  Claim C5 as amended (both passes). A line processed inside a block comment whose trimmed
  content holds \<^verbatim>\<open>*/\<close> is dropped whole, also when code follows the \<^verbatim>\<open>*/\<close>. When the trimmed
  content does not start with \<^verbatim>\<open>/**\<close>, the iteration does nothing else than leave the
  block-comment state and set \<^verbatim>\<open>skip_next_blank\<close>. (A line that starts with \<^verbatim>\<open>/**\<close> is taken
  by the opener check, which comes first: the counterexample below.)
\<close>

theorem closer_line:
  assumes "substr_in ''*/'' (strip line)"
  shows "(in_javadoc cs \<longrightarrow>
            result (comments_body cs line) = result cs
          \<and> (\<not> startswith (strip line) ''/**'' \<longrightarrow>
               comments_body cs line = cs\<lparr>in_javadoc := False, skip_next_blank := True\<rparr>))
       \<and> (in_javadoc bs \<or> in_block_comment bs \<longrightarrow>
            result (better_body bs line) = result bs
          \<and> (\<not> startswith (strip line) ''/**'' \<longrightarrow>
               better_body bs line
                 = bs\<lparr>in_javadoc := False, in_block_comment := False, skip_next_blank := True\<rparr>))"
  using assms by (auto simp add: comments_body_def better_body_def Let_def)

theorem closer_line_witness:
  "result (comments_body (comments_init\<lparr>in_javadoc := True\<rparr>) ''*/ int x = 1;'') = []
   \<and> comments_body (comments_init\<lparr>in_javadoc := True\<rparr>) ''*/ int x = 1;''
       = comments_init\<lparr>in_javadoc := False, skip_next_blank := True\<rparr>
   \<and> result (better_body (better_init\<lparr>in_javadoc := True\<rparr>) ''*/ int x = 1;'') = []
   \<and> better_body (better_init\<lparr>in_javadoc := True\<rparr>) ''*/ int x = 1;''
       = better_init\<lparr>in_javadoc := False, in_block_comment := False, skip_next_blank := True\<rparr>"
  using closer_line [of "''*/ int x = 1;''" "comments_init\<lparr>in_javadoc := True\<rparr>"
      "better_init\<lparr>in_javadoc := True\<rparr>"]
  by (simp add: strip_def isspace_def startswith_def comments_init_def better_init_def)

theorem closer_after_opener_counterexample:
  "in_javadoc (comments_body comments_init ''/**'')
   \<and> substr_in ''*/'' (strip ''/** b */ f();'')
   \<and> in_javadoc (comments_body (comments_body comments_init ''/**'') ''/** b */ f();'')
   \<and> \<not> skip_next_blank (comments_body (comments_body comments_init ''/**'') ''/** b */ f();'')
   \<and> in_javadoc (better_body better_init ''/**'')
   \<and> in_javadoc (better_body (better_body better_init ''/**'') ''/** b */ f();'')
   \<and> \<not> skip_next_blank (better_body (better_body better_init ''/**'') ''/** b */ f();'')"
  by (simp add: eval_defs)

section \<open>What opens the block-comment state\<close>

text \<open>
  Claim C4 as amended (richer pass). The scanner is in block-comment state after a line
  exactly when the line's trimmed content starts with \<^verbatim>\<open>/**\<close>, or the scanner was in that
  state before and the trimmed content holds no \<^verbatim>\<open>*/\<close>. So lines of which none starts with
  \<^verbatim>\<open>/**\<close> never bring the scanner into the state: a plain \<^verbatim>\<open>/* ... */\<close> region is handled
  by the ordinary rules, and its lines \<^verbatim>\<open>/* a\<close>, \<^verbatim>\<open>b\<close>, \<^verbatim>\<open>*/\<close> are all emitted.
\<close>

theorem javadoc_state_only:
  "in_javadoc (comments_body st line)
     = (startswith (strip line) ''/**'' \<or> (in_javadoc st \<and> \<not> substr_in ''*/'' (strip line)))
   \<and> (list_all (\<lambda>x. \<not> startswith (strip x) ''/**'') ls \<and> \<not> in_javadoc st
        \<longrightarrow> \<not> in_javadoc (foldl comments_body st ls))
   \<and> simplify_comments [''/* a'' @ [nl], ''b'' @ [nl], ''*/'' @ [nl]]
       = [''/* a'' @ [nl], ''b'' @ [nl], ''*/'' @ [nl]]"
proof -
  have "in_javadoc (comments_body st line)
     = (startswith (strip line) ''/**'' \<or> (in_javadoc st \<and> \<not> substr_in ''*/'' (strip line)))"
    by (simp add: comments_body_def Let_def)
  moreover have "simplify_comments [''/* a'' @ [nl], ''b'' @ [nl], ''*/'' @ [nl]]
       = [''/* a'' @ [nl], ''b'' @ [nl], ''*/'' @ [nl]]"
    by (simp add: eval_defs)
  ultimately show ?thesis using comments_no_opener_fold [of ls st] by blast
qed

theorem javadoc_state_only_witness:
  "\<not> in_javadoc (comments_body comments_init ''/* a'')
   \<and> \<not> in_javadoc (foldl comments_body comments_init [''/* a'', '' * b'', '' */''])"
  using javadoc_state_only [of comments_init "''/* a''" "[''/* a'', '' * b'', '' */'']"]
  by (simp add: strip_def isspace_def startswith_def comments_init_def)

theorem plain_block_comment_counterexample:
  "\<not> in_javadoc (comments_body comments_init (''/* a'' @ [nl]))
   \<and> simplify_comments [''/* a'' @ [nl], ''b'' @ [nl], ''*/'' @ [nl]]
       = [''/* a'' @ [nl], ''b'' @ [nl], ''*/'' @ [nl]]
   \<and> \<not> in_javadoc (better_body better_init (''/* a'' @ [nl]))
   \<and> \<not> in_block_comment (better_body better_init (''/* a'' @ [nl]))
   \<and> simplify_better [''/* a'' @ [nl], ''b'' @ [nl], ''*/'' @ [nl]]
       = [''/* a'' @ [nl], ''b'' @ [nl], ''*/'' @ [nl]]"
  by (simp add: eval_defs)

section \<open>What the matcher accepts\<close>

text \<open>
  The rests the matcher lists for an atom are exactly the rests of the input after a piece
  the atom stands for; so a pattern matches when the input splits into such pieces, one per
  atom, followed by any rest.
\<close>

lemma startswith_iff: "startswith s l \<longleftrightarrow> (\<exists>r. s = l @ r)"
  unfolding startswith_def by (metis append_eq_conv_conj append_take_drop_id)

lemma in_atom_m_Lit: "r \<in> set (atom_m (Lit l) s) \<longleftrightarrow> s = l @ r"
  by (auto simp: startswith_iff)

lemma in_atom_m_Rep:
  "r \<in> set (atom_m (Rep n c) s) \<longleftrightarrow> (\<exists>m. s = m @ r \<and> list_all (in_cls c) m \<and> n \<le> length m)"
proof
  assume "r \<in> set (atom_m (Rep n c) s)"
  then obtain k where r: "r = drop k s" and k: "n \<le> k" "k \<le> length (takeWhile (in_cls c) s)"
    by auto
  have "take k s = take k (takeWhile (in_cls c) s)"
    by (metis k(2) append_eq_conv_conj takeWhile_dropWhile_id min.absorb2 take_take length_take)
  then have "list_all (in_cls c) (take k s)"
    by (metis in_set_takeD list_all_iff set_takeWhileD)
  moreover have "length (take k s) = k"
    using k(2) length_takeWhile_le [of "in_cls c" s] by simp
  ultimately show "\<exists>m. s = m @ r \<and> list_all (in_cls c) m \<and> n \<le> length m"
    using k(1) r by (intro exI [of _ "take k s"]) simp
next
  assume "\<exists>m. s = m @ r \<and> list_all (in_cls c) m \<and> n \<le> length m"
  then obtain m where s: "s = m @ r" and m: "list_all (in_cls c) m" "n \<le> length m" by blast
  have "takeWhile (in_cls c) (m @ r) = m @ takeWhile (in_cls c) r"
    using m(1) by (simp add: list_all_iff)
  then have "length m \<le> length (takeWhile (in_cls c) s)" using s by simp
  moreover have "r = drop (length m) s" using s by simp
  ultimately have "length m \<in> set (rev [n ..< Suc (length (takeWhile (in_cls c) s))])"
    and "r = (\<lambda>k. drop k s) (length m)"
    using m(2) by auto
  then have "r \<in> (\<lambda>k. drop k s) ` set (rev [n ..< Suc (length (takeWhile (in_cls c) s))])"
    by (rule image_eqI [rotated])
  then show "r \<in> set (atom_m (Rep n c) s)" by simp
qed

lemma in_cls_Space: "in_cls Space = isspace"
  by (rule ext) simp

lemma in_cls_Chr: "in_cls (Chr a) = (\<lambda>c. c = a)"
  by (rule ext) simp

lemma in_cls_Dot: "in_cls Dot = (\<lambda>c. c \<noteq> nl)"
  by (rule ext) simp

lemma in_atom_m_Alt: "r \<in> set (atom_m (Alt ls) s) \<longleftrightarrow> (\<exists>l \<in> set ls. s = l @ r)"
proof
  assume "r \<in> set (atom_m (Alt ls) s)"
  then obtain l where "l \<in> set ls" "startswith s l" "r = drop (length l) s" by auto
  then show "\<exists>l \<in> set ls. s = l @ r"
    by (metis startswith_def append_take_drop_id)
next
  assume "\<exists>l \<in> set ls. s = l @ r"
  then obtain l where "l \<in> set ls" "s = l @ r" by blast
  then have "l \<in> set ls" "startswith s l" "r = drop (length l) s"
    by (simp_all add: startswith_def)
  then show "r \<in> set (atom_m (Alt ls) s)" by auto
qed

lemma in_atom_m_Eol: "r \<in> set (atom_m Eol s) \<longleftrightarrow> r = s \<and> (s = [] \<or> s = [nl])"
  by auto

lemma in_seq_m_Cons:
  "r \<in> set (seq_m (a # as) s) \<longleftrightarrow> (\<exists>t. t \<in> set (atom_m a s) \<and> r \<in> set (seq_m as t))"
  by auto

lemma in_seq_m_Nil: "r \<in> set (seq_m [] s) \<longleftrightarrow> r = s"
  by auto

lemma re_match_iff: "re_match p s \<longleftrightarrow> (\<exists>r. r \<in> set (seq_m p s))"
  by (cases "seq_m p s") (auto simp: re_match_def)

lemmas in_seq_m = in_seq_m_Cons in_seq_m_Nil in_atom_m_Lit in_atom_m_Rep in_atom_m_Alt in_atom_m_Eol

lemma re_match_Nil: "re_match [] s"
  by (simp add: re_match_def)

lemma re_match_Lit: "re_match (Lit l # p) s \<longleftrightarrow> (\<exists>r. s = l @ r \<and> re_match p r)"
  unfolding re_match_iff by (simp only: in_seq_m) blast

lemma re_match_Rep:
  "re_match (Rep n c # p) s \<longleftrightarrow>
     (\<exists>m r. s = m @ r \<and> list_all (in_cls c) m \<and> n \<le> length m \<and> re_match p r)"
  unfolding re_match_iff by (simp only: in_seq_m) blast

lemma re_match_Alt:
  "re_match (Alt ls # p) s \<longleftrightarrow> (\<exists>l r. l \<in> set ls \<and> s = l @ r \<and> re_match p r)"
  unfolding re_match_iff by (simp only: in_seq_m) blast

lemma re_match_Eol: "re_match (Eol # p) s \<longleftrightarrow> (s = [] \<or> s = [nl]) \<and> re_match p s"
  unfolding re_match_iff by (simp only: in_seq_m) blast

section \<open>Trimmed lines\<close>

lemma all_eq_replicate: "list_all (\<lambda>c. c = a) m \<longleftrightarrow> m = replicate (length m) a"
  by (induction m) auto

lemma dropWhile_all: "list_all P (dropWhile P l) \<longleftrightarrow> list_all P l"
proof
  assume a: "list_all P (dropWhile P l)"
  have "dropWhile P l = []"
  proof (rule ccontr)
    assume n: "dropWhile P l \<noteq> []"
    then have "\<not> P (hd (dropWhile P l))" by (rule hd_dropWhile)
    moreover have "hd (dropWhile P l) \<in> set (dropWhile P l)" using n by simp
    ultimately show False using a by (simp add: list_all_iff)
  qed
  then show "list_all P l" by (simp add: dropWhile_eq_Nil_conv list_all_iff)
next
  assume "list_all P l"
  then have e: "dropWhile P l = []" by (simp add: list_all_iff)
  show "list_all P (dropWhile P l)" unfolding e by simp
qed

lemma strip_Nil_iff: "strip l = [] \<longleftrightarrow> list_all isspace l"
proof -
  have "strip l = [] \<longleftrightarrow> list_all isspace (dropWhile isspace l)"
    by (simp add: strip_def list_all_iff)
  then show ?thesis by (simp add: dropWhile_all)
qed

lemma strip_ends:
  assumes "strip l \<noteq> []"
  shows "\<not> isspace (hd (strip l)) \<and> \<not> isspace (last (strip l))"
proof -
  let ?a = "dropWhile isspace l"
  let ?b = "dropWhile isspace (rev ?a)"
  have b: "?b \<noteq> []" using assms by (simp add: strip_def)
  have a: "?a \<noteq> []"
  proof
    assume e: "?a = []"
    have "?b = []" unfolding e by simp
    with b show False by (simp only:)
  qed
  have "\<not> isspace (hd ?b)" using b by (rule hd_dropWhile)
  then have l: "\<not> isspace (last (strip l))" using b by (simp add: strip_def last_rev)
  have ha: "\<not> isspace (hd ?a)" using a by (rule hd_dropWhile)
  have "rev ?a = takeWhile isspace (rev ?a) @ ?b" by simp
  then have "last (rev ?a) = last ?b" using b by (metis last_appendR)
  then have "hd (strip l) = hd ?a" using a b by (simp add: strip_def hd_rev last_rev)
  then show ?thesis using l ha by simp
qed

section \<open>Dividers, and lines without a slash\<close>

lemma re_match_RepI:
  "list_all (in_cls c) m \<Longrightarrow> n \<le> length m \<Longrightarrow> re_match p r \<Longrightarrow> re_match (Rep n c # p) (m @ r)"
  unfolding re_match_Rep by blast

lemma re_match_LitI: "re_match p r \<Longrightarrow> re_match (Lit l # p) (l @ r)"
  unfolding re_match_Lit by blast

lemma isspace_nl: "isspace nl"
  by (simp add: isspace_def)

lemma not_isspace_slash: "\<not> isspace (CHR ''/'')"
  by (simp add: isspace_def)

lemma stripped_no_lead:
  assumes "strip l = m @ CHR ''/'' # r" "list_all isspace m"
  shows "m = []"
proof (rule ccontr)
  assume m: "m \<noteq> []"
  then have "hd (strip l) = hd m" using assms(1) by simp
  moreover have "isspace (hd m)" using m assms(2) by (cases m) simp_all
  moreover have "strip l \<noteq> []" using assms(1) by simp
  ultimately show False using strip_ends [of l] by simp
qed

lemma stripped_no_trail:
  assumes "strip l = a @ m" "list_all isspace m"
  shows "m = []"
proof (rule ccontr)
  assume m: "m \<noteq> []"
  then have "last (strip l) = last m" using assms(1) by simp
  moreover have "last m \<in> set m" using m by simp
  then have "isspace (last m)" using assms(2) by (simp add: list_all_iff)
  moreover have "strip l \<noteq> []" using assms(1) m by simp
  ultimately show False using strip_ends [of l] by simp
qed

lemma divider_comments_one_run:
  "re_match divider_comments (strip line) \<longleftrightarrow> one_run (strip line)"
proof
  assume "re_match divider_comments (strip line)"
  then obtain m1 r1 where 1: "strip line = m1 @ r1" "list_all isspace m1"
    and "re_match [Lit ''//'', Rep 0 Space, Rep 3 (Chr (CHR ''=''))] r1"
    unfolding divider_comments_def re_match_Rep in_cls_Space by blast
  then obtain r2 where 2: "r1 = ''//'' @ r2"
    and "re_match [Rep 0 Space, Rep 3 (Chr (CHR ''=''))] r2"
    unfolding re_match_Lit by blast
  then obtain m3 r3 where 3: "r2 = m3 @ r3" "list_all isspace m3"
    and "re_match [Rep 3 (Chr (CHR ''=''))] r3"
    unfolding re_match_Rep in_cls_Space by blast
  then obtain m4 r4 where 4: "r3 = m4 @ r4" "list_all (\<lambda>c. c = CHR ''='') m4" "3 \<le> length m4"
    unfolding re_match_Rep in_cls_Chr by blast
  have "m1 = []" using 1 2 by (intro stripped_no_lead [of line m1 "CHR ''/'' # r2"]) simp_all
  then have "strip line = ''//'' @ m3 @ replicate (length m4) (CHR ''='') @ r4"
    using 1 2 3 4 all_eq_replicate [of "CHR ''=''" m4] by simp
  then show "one_run (strip line)"
    unfolding one_run_def using 3(2) 4(3) by blast
next
  assume "one_run (strip line)"
  then obtain gap n rest where s: "strip line = ''//'' @ gap @ replicate n (CHR ''='') @ rest"
    and g: "list_all isspace gap" and n: "3 \<le> n"
    unfolding one_run_def by blast
  have e: "list_all (in_cls (Chr (CHR ''=''))) (replicate n (CHR ''=''))"
    by (simp add: list_all_iff)
  have "re_match [Rep 3 (Chr (CHR ''=''))] (replicate n (CHR ''='') @ rest)"
    using n by (intro re_match_RepI [OF e _ re_match_Nil]) simp
  from re_match_RepI [OF _ _ this, of Space gap 0]
  have "re_match [Rep 0 Space, Rep 3 (Chr (CHR ''=''))] (gap @ replicate n (CHR ''='') @ rest)"
    using g by (simp add: in_cls_Space)
  then have "re_match [Lit ''//'', Rep 0 Space, Rep 3 (Chr (CHR ''=''))]
      (''//'' @ gap @ replicate n (CHR ''='') @ rest)"
    by (rule re_match_LitI)
  from re_match_RepI [OF _ _ this, of Space "[]" 0]
  have "re_match divider_comments ([] @ ''//'' @ gap @ replicate n (CHR ''='') @ rest)"
    unfolding divider_comments_def by simp
  then show "re_match divider_comments (strip line)" using s by simp
qed

lemma re_match_RepE:
  assumes "re_match (Rep n c # p) s"
  obtains m r where "s = m @ r" "list_all (in_cls c) m" "n \<le> length m" "re_match p r"
  using assms unfolding re_match_Rep by blast

lemma re_match_LitE:
  assumes "re_match (Lit l # p) s"
  obtains r where "s = l @ r" "re_match p r"
  using assms unfolding re_match_Lit by blast

lemma divider_better_two_runs:
  assumes "nl \<notin> set (strip line)"
  shows "re_match divider_better (strip line) \<longleftrightarrow> two_runs (strip line)"
proof
  assume "re_match divider_better (strip line)"
  then have "re_match (Rep 0 Space # [Lit ''//'', Rep 0 Space, Rep 3 (Chr (CHR ''='')), Rep 0 Dot,
      Rep 3 (Chr (CHR ''='')), Rep 0 Space, Eol]) (strip line)"
    by (simp only: divider_better_def)
  then obtain m1 r1 where 1: "strip line = m1 @ r1" "list_all (in_cls Space) m1" "0 \<le> length m1"
    and a1: "re_match [Lit ''//'', Rep 0 Space, Rep 3 (Chr (CHR ''='')), Rep 0 Dot,
      Rep 3 (Chr (CHR ''='')), Rep 0 Space, Eol] r1"
    by (rule re_match_RepE)
  from a1 obtain r2 where 2: "r1 = ''//'' @ r2"
    and a2: "re_match [Rep 0 Space, Rep 3 (Chr (CHR ''='')), Rep 0 Dot,
      Rep 3 (Chr (CHR ''='')), Rep 0 Space, Eol] r2"
    by (rule re_match_LitE)
  from a2 obtain m3 r3 where 3: "r2 = m3 @ r3" "list_all (in_cls Space) m3" "0 \<le> length m3"
    and a3: "re_match [Rep 3 (Chr (CHR ''='')), Rep 0 Dot, Rep 3 (Chr (CHR ''='')), Rep 0 Space, Eol] r3"
    by (rule re_match_RepE)
  from a3 obtain m4 r4 where 4: "r3 = m4 @ r4" "list_all (in_cls (Chr (CHR ''=''))) m4" "3 \<le> length m4"
    and a4: "re_match [Rep 0 Dot, Rep 3 (Chr (CHR ''='')), Rep 0 Space, Eol] r4"
    by (rule re_match_RepE)
  from a4 obtain m5 r5 where 5: "r4 = m5 @ r5" "list_all (in_cls Dot) m5" "0 \<le> length m5"
    and a5: "re_match [Rep 3 (Chr (CHR ''='')), Rep 0 Space, Eol] r5"
    by (rule re_match_RepE)
  from a5 obtain m6 r6 where 6: "r5 = m6 @ r6" "list_all (in_cls (Chr (CHR ''=''))) m6" "3 \<le> length m6"
    and a6: "re_match [Rep 0 Space, Eol] r6"
    by (rule re_match_RepE)
  from a6 obtain m7 r7 where 7: "r6 = m7 @ r7" "list_all (in_cls Space) m7" "0 \<le> length m7"
    and a7: "re_match [Eol] r7"
    by (rule re_match_RepE)
  from a7 have 8: "r7 = [] \<or> r7 = [nl]"
    by (simp only: re_match_Eol)
  have "m1 = []"
    using 1(1,2) 2 by (intro stripped_no_lead [of line m1 "CHR ''/'' # r2"]) (simp_all add: in_cls_Space)
  moreover have "list_all isspace (m7 @ r7)" using 7(2) 8 by (auto simp: isspace_nl in_cls_Space)
  then have "m7 @ r7 = []"
    using 1(1) 2 3(1) 4(1) 5(1) 6(1) 7(1)
    by (intro stripped_no_trail [of line "m1 @ ''//'' @ m3 @ m4 @ m5 @ m6" "m7 @ r7"]) simp_all
  moreover have "m4 = replicate (length m4) (CHR ''='')" "m6 = replicate (length m6) (CHR ''='')"
    using 4(2) 6(2) all_eq_replicate [of "CHR ''=''"] by (simp_all add: in_cls_Chr)
  ultimately have "strip line = ''//'' @ m3 @ replicate (length m4) (CHR ''='') @ m5
      @ replicate (length m6) (CHR ''='')"
    using 1(1) 2 3(1) 4(1) 5(1) 6(1) 7(1) by simp
  moreover have "list_all isspace m3" using 3(2) by (simp add: in_cls_Space)
  ultimately show "two_runs (strip line)"
    unfolding two_runs_def using 4(3) 6(3) by blast
next
  assume "two_runs (strip line)"
  then obtain gap n label m where
    s: "strip line = ''//'' @ gap @ replicate n (CHR ''='') @ label @ replicate m (CHR ''='')"
    and g: "list_all isspace gap" and n: "3 \<le> n" and m: "3 \<le> m"
    unfolding two_runs_def by blast
  have l: "list_all (in_cls Dot) label"
    using assms s by (auto simp: list_all_iff)
  have e: "list_all (in_cls (Chr (CHR ''=''))) (replicate k (CHR ''=''))" for k
    by (simp add: list_all_iff)
  have n': "3 \<le> length (replicate n (CHR ''=''))" and m': "3 \<le> length (replicate m (CHR ''=''))"
    using n m by simp_all
  have "re_match [Eol] []" by (simp add: re_match_Eol re_match_Nil)
  from re_match_RepI [OF _ _ this, of Space "[]" 0]
  have "re_match [Rep 0 Space, Eol] []" by simp
  from re_match_RepI [OF e m' this]
  have "re_match [Rep 3 (Chr (CHR ''='')), Rep 0 Space, Eol] (replicate m (CHR ''=''))" by simp
  from re_match_RepI [OF l _ this, of 0]
  have "re_match [Rep 0 Dot, Rep 3 (Chr (CHR ''='')), Rep 0 Space, Eol]
      (label @ replicate m (CHR ''=''))" by simp
  from re_match_RepI [OF e n' this]
  have "re_match [Rep 3 (Chr (CHR ''='')), Rep 0 Dot, Rep 3 (Chr (CHR ''='')), Rep 0 Space, Eol]
      (replicate n (CHR ''='') @ label @ replicate m (CHR ''=''))" .
  from re_match_RepI [OF _ _ this, of Space gap 0]
  have "re_match [Rep 0 Space, Rep 3 (Chr (CHR ''='')), Rep 0 Dot, Rep 3 (Chr (CHR ''='')),
      Rep 0 Space, Eol] (gap @ replicate n (CHR ''='') @ label @ replicate m (CHR ''=''))"
    using g by (simp add: in_cls_Space)
  then have "re_match [Lit ''//'', Rep 0 Space, Rep 3 (Chr (CHR ''='')), Rep 0 Dot,
      Rep 3 (Chr (CHR ''='')), Rep 0 Space, Eol]
      (''//'' @ gap @ replicate n (CHR ''='') @ label @ replicate m (CHR ''=''))"
    by (rule re_match_LitI)
  from re_match_RepI [OF _ _ this, of Space "[]" 0]
  have "re_match divider_better
      ([] @ ''//'' @ gap @ replicate n (CHR ''='') @ label @ replicate m (CHR ''=''))"
    unfolding divider_better_def by simp
  then show "re_match divider_better (strip line)" using s by simp
qed

lemma no_match_re_sub:
  "\<not> matches_somewhere p s \<Longrightarrow> re_sub_empty p s = s"
  by (induction s) (simp_all add: re_match_def)

lemma inline_needs_slash:
  assumes "re_match inline_comments s"
  shows "CHR ''/'' \<in> set s"
proof -
  from assms obtain m1 r1 where "s = m1 @ r1"
    and "re_match [Lit ''//'', Rep 0 Space, Alt action_markers] r1"
    unfolding inline_comments_def re_match_Rep by blast
  then obtain r2 where "s = m1 @ ''//'' @ r2"
    unfolding re_match_Lit by blast
  then show ?thesis by simp
qed

lemma no_slash_no_inline:
  "CHR ''/'' \<notin> set s \<Longrightarrow> \<not> matches_somewhere inline_comments s"
  by (induction s) (auto dest: inline_needs_slash)

lemma blank_line_unchanged:
  assumes "strip l = []"
  shows "re_sub_empty inline_comments l = l"
proof -
  have "list_all isspace l" using assms by (simp add: strip_Nil_iff)
  then have "CHR ''/'' \<notin> set l"
    using not_isspace_slash by (auto simp: list_all_iff)
  then show ?thesis by (intro no_match_re_sub no_slash_no_inline)
qed

section \<open>The blank line after a doc comment\<close>

lemma blank_not_divider_comments: "\<not> re_match divider_comments []"
  by (simp add: re_match_def divider_comments_def startswith_def)

lemma blank_not_noise_comments: "\<not> re_match noise_comments []"
  by (simp add: re_match_def noise_comments_def startswith_def)

lemma blank_not_divider_better: "\<not> re_match divider_better []"
  by (simp add: re_match_def divider_better_def startswith_def)

text \<open>
  Claim C6 as amended (both passes). With \<^verbatim>\<open>skip_next_blank\<close> set and the scanner outside a
  comment (the state after a closer): a line that is blank after trimming is dropped and
  clears the flag, so that a second blank line after it survives; a line that is not blank
  and does not open a doc comment clears the flag and is not dropped by blank suppression
  (it is emitted unless the divider rule or, in the richer pass, the noise rule drops it).
  For the input \<^verbatim>\<open>/**\<close>, \<^verbatim>\<open>foo\<close>, \<^verbatim>\<open>*/\<close>, blank, blank, \<^verbatim>\<open>code\<close> the output is one blank line and
  \<^verbatim>\<open>code\<close>. (A line that opens a doc comment right after the closer is dropped by the opener
  check and leaves the flag set: the counterexample below.)
\<close>

theorem blank_suppression:
  assumes "\<not> in_javadoc cs" and "skip_next_blank cs"
    and "\<not> in_javadoc bs" and "\<not> in_block_comment bs" and "skip_next_blank bs"
  shows "(strip line = [] \<longrightarrow>
            comments_body cs line = cs\<lparr>skip_next_blank := False\<rparr>
          \<and> better_body bs line = bs\<lparr>skip_next_blank := False\<rparr>
          \<and> result (comments_body (comments_body cs line) line) = result cs @ [line]
          \<and> result (better_body (better_body bs line) line) = result bs @ [line])
       \<and> (strip line \<noteq> [] \<and> \<not> startswith (strip line) ''/**'' \<longrightarrow>
            \<not> skip_next_blank (comments_body cs line)
          \<and> \<not> skip_next_blank (better_body bs line)
          \<and> result (comments_body cs line)
              = (if re_match divider_comments (strip line) \<or> re_match noise_comments (strip line)
                 then result cs else result cs @ [re_sub_empty inline_comments line])
          \<and> result (better_body bs line)
              = (if re_match divider_better (strip line) then result bs else result bs @ [line]))
       \<and> simplify_comments [''/**'' @ [nl], ''foo'' @ [nl], ''*/'' @ [nl], [nl], [nl], ''code'']
            = [[nl], ''code'']
       \<and> simplify_better [''/**'' @ [nl], ''foo'' @ [nl], ''*/'' @ [nl], [nl], [nl], ''code'']
            = [[nl], ''code'']"
proof -
  have 1: "comments_body cs line = cs\<lparr>skip_next_blank := False\<rparr>" if "strip line = []"
    using that assms by (simp add: comments_body_def startswith_def)
  have 2: "better_body bs line = bs\<lparr>skip_next_blank := False\<rparr>" if "strip line = []"
    using that assms by (simp add: better_body_def startswith_def)
  have 3: "result (comments_body (cs\<lparr>skip_next_blank := False\<rparr>) line) = result cs @ [line]"
    if "strip line = []"
    using that assms
    by (simp add: comments_body_def startswith_def blank_not_divider_comments
        blank_not_noise_comments blank_line_unchanged)
  have 4: "result (better_body (bs\<lparr>skip_next_blank := False\<rparr>) line) = result bs @ [line]"
    if "strip line = []"
    using that assms by (simp add: better_body_def startswith_def blank_not_divider_better)
  have 5: "\<not> skip_next_blank (comments_body cs line)
          \<and> \<not> skip_next_blank (better_body bs line)
          \<and> result (comments_body cs line)
              = (if re_match divider_comments (strip line) \<or> re_match noise_comments (strip line)
                 then result cs else result cs @ [re_sub_empty inline_comments line])
          \<and> result (better_body bs line)
              = (if re_match divider_better (strip line) then result bs else result bs @ [line])"
    if "strip line \<noteq> []" "\<not> startswith (strip line) ''/**''"
    using that assms by (simp add: comments_body_def better_body_def Let_def)
  have 6: "simplify_comments [''/**'' @ [nl], ''foo'' @ [nl], ''*/'' @ [nl], [nl], [nl], ''code'']
            = [[nl], ''code'']"
    by (simp add: eval_defs)
  have 7: "simplify_better [''/**'' @ [nl], ''foo'' @ [nl], ''*/'' @ [nl], [nl], [nl], ''code'']
            = [[nl], ''code'']"
    by (simp add: eval_defs)
  show ?thesis using 1 2 3 4 5 6 7 by simp
qed

theorem blank_suppression_witness:
  "comments_body (foldl comments_body comments_init [''/**'', ''*/'']) [CHR 0x20, nl]
     = (foldl comments_body comments_init [''/**'', ''*/''])\<lparr>skip_next_blank := False\<rparr>
   \<and> result (comments_body (comments_body (foldl comments_body comments_init [''/**'', ''*/''])
        [CHR 0x20, nl]) [CHR 0x20, nl]) = [[CHR 0x20, nl]]
   \<and> result (better_body (better_body (foldl better_body better_init [''/**'', ''*/''])
        [CHR 0x20, nl]) [CHR 0x20, nl]) = [[CHR 0x20, nl]]
   \<and> \<not> skip_next_blank (comments_body (foldl comments_body comments_init [''/**'', ''*/'']) ''code'')
   \<and> result (comments_body (foldl comments_body comments_init [''/**'', ''*/'']) ''code'') = [''code'']
   \<and> \<not> skip_next_blank (better_body (foldl better_body better_init [''/**'', ''*/'']) ''code'')
   \<and> result (better_body (foldl better_body better_init [''/**'', ''*/'']) ''code'') = [''code'']"
  using blank_suppression [of "foldl comments_body comments_init [''/**'', ''*/'']"
      "foldl better_body better_init [''/**'', ''*/'']" "[CHR 0x20, nl]"]
    blank_suppression [of "foldl comments_body comments_init [''/**'', ''*/'']"
      "foldl better_body better_init [''/**'', ''*/'']" "''code''"]
  by (simp add: eval_defs)

theorem opener_after_closer_counterexample:
  "strip ''/** next'' \<noteq> []
   \<and> skip_next_blank (foldl comments_body comments_init [''/**'', ''*/''])
   \<and> skip_next_blank (foldl comments_body comments_init [''/**'', ''*/'', ''/** next''])
   \<and> result (foldl comments_body comments_init [''/**'', ''*/'', ''/** next'']) = []
   \<and> skip_next_blank (foldl better_body better_init [''/**'', ''*/'', ''/** next''])
   \<and> result (foldl better_body better_init [''/**'', ''*/'', ''/** next'']) = []
   \<and> simplify_better [''/**'', ''*/'', ''// ===== A =====''] = []"
  by (simp add: eval_defs)

section \<open>Divider comments\<close>

text \<open>
  Claim C3 as amended. Let the trimmed line hold no line break (no line that
  \<^verbatim>\<open>readlines\<close> returns has one inside). In the simpler pass the divider pattern matches the
  trimmed line exactly when it is \<^verbatim>\<open>//\<close>, optional white space, and two runs of at least three
  \<^verbatim>\<open>=\<close> around a label that may be empty; in the richer pass exactly when it is \<^verbatim>\<open>//\<close>,
  optional white space and one run of at least three \<^verbatim>\<open>=\<close>, whatever follows. A line that
  reaches the divider check (scanner outside a comment, trimmed line not blank and no doc
  opener) is dropped by it exactly in these cases. \<^verbatim>\<open>// ===== SECTION =====\<close> is dropped and
  \<^verbatim>\<open>// = not a divider\<close> is kept by both passes; a comment with one run and no closing run is
  kept by the simpler pass and dropped by the richer one.
\<close>

theorem divider_removal:
  assumes "nl \<notin> set (strip line)"
  shows "(re_match divider_better (strip line) \<longleftrightarrow> two_runs (strip line))
       \<and> (re_match divider_comments (strip line) \<longleftrightarrow> one_run (strip line))
       \<and> (\<not> in_javadoc bs \<and> \<not> in_block_comment bs \<and> \<not> startswith (strip line) ''/**''
            \<and> strip line \<noteq> [] \<longrightarrow>
            result (better_body bs line)
              = (if two_runs (strip line) then result bs else result bs @ [line]))
       \<and> (\<not> in_javadoc cs \<and> \<not> startswith (strip line) ''/**'' \<and> strip line \<noteq> [] \<longrightarrow>
            result (comments_body cs line)
              = (if one_run (strip line) \<or> re_match noise_comments (strip line) then result cs
                 else result cs @ [re_sub_empty inline_comments line]))
       \<and> simplify_better [''// ===== SECTION ====='' @ [nl], ''// = not a divider'' @ [nl],
            ''// === one run'' @ [nl]] = [''// = not a divider'' @ [nl], ''// === one run'' @ [nl]]
       \<and> simplify_comments [''// ===== SECTION ====='' @ [nl], ''// = not a divider'' @ [nl],
            ''// === one run'' @ [nl]] = [''// = not a divider'' @ [nl]]"
proof -
  note b = divider_better_two_runs [OF assms]
  note c = divider_comments_one_run [of line]
  have 1: "result (better_body bs line)
      = (if two_runs (strip line) then result bs else result bs @ [line])"
    if "\<not> in_javadoc bs" "\<not> in_block_comment bs" "\<not> startswith (strip line) ''/**''"
      "strip line \<noteq> []"
    using that by (simp add: better_body_def Let_def b)
  have 2: "result (comments_body cs line)
      = (if one_run (strip line) \<or> re_match noise_comments (strip line) then result cs
         else result cs @ [re_sub_empty inline_comments line])"
    if "\<not> in_javadoc cs" "\<not> startswith (strip line) ''/**''" "strip line \<noteq> []"
    using that by (simp add: comments_body_def Let_def c)
  have 3: "simplify_better [''// ===== SECTION ====='' @ [nl], ''// = not a divider'' @ [nl],
            ''// === one run'' @ [nl]] = [''// = not a divider'' @ [nl], ''// === one run'' @ [nl]]"
    by (simp add: eval_defs)
  have 4: "simplify_comments [''// ===== SECTION ====='' @ [nl], ''// = not a divider'' @ [nl],
            ''// === one run'' @ [nl]] = [''// = not a divider'' @ [nl]]"
    by (simp add: eval_defs)
  show ?thesis using b c 1 2 3 4 by simp
qed

theorem divider_removal_witness:
  "two_runs ''// ===== SECTION =====''
   \<and> one_run ''// ===== SECTION =====''
   \<and> result (better_body better_init (''// ===== SECTION ====='' @ [nl])) = []
   \<and> result (comments_body comments_init (''// ===== SECTION ====='' @ [nl])) = []
   \<and> \<not> two_runs ''// = not a divider''
   \<and> \<not> one_run ''// = not a divider''
   \<and> result (better_body better_init (''// = not a divider'' @ [nl]))
       = [''// = not a divider'' @ [nl]]"
  using divider_removal [of "''// ===== SECTION ====='' @ [nl]" better_init comments_init]
    divider_removal [of "''// = not a divider'' @ [nl]" better_init comments_init]
  by (simp add: strip_def isspace_def startswith_def re_match_def divider_better_def
      divider_comments_def better_init_def comments_init_def)

theorem one_run_dropped_counterexample:
  "re_match divider_comments (strip (''// === one run'' @ [nl]))
   \<and> \<not> re_match divider_better (strip (''// === one run'' @ [nl]))
   \<and> simplify_comments [''// === one run'' @ [nl]] = []
   \<and> simplify_better [''// === one run'' @ [nl]] = [''// === one run'' @ [nl]]"
  by (simp add: eval_defs)

section \<open>Running a pass on its own output\<close>

lemma comments_kept_map:
  "result (comments_before lines k) =
     map (\<lambda>i. re_sub_empty inline_comments (lines ! i))
       (filter (\<lambda>i. comments_emits (comments_before lines i) (lines ! i)) [0 ..< min k (length lines)])"
proof (induction k)
  case 0
  show ?case by (simp add: comments_before_def comments_init_def)
next
  case (Suc k)
  show ?case
  proof (cases "k < length lines")
    case True
    then have m: "min (Suc k) (length lines) = Suc k" "min k (length lines) = k" by simp_all
    show ?thesis
      using Suc.IH True unfolding m by (simp add: comments_before_Suc comments_body_result)
  next
    case False
    then have "comments_before lines (Suc k) = comments_before lines k"
      by (simp add: comments_before_def)
    moreover have "min (Suc k) (length lines) = min k (length lines)" using False by simp
    ultimately show ?thesis using Suc.IH by simp
  qed
qed

lemma plain_comments_step:
  assumes "plain_comments l" "\<not> in_javadoc st" "\<not> skip_next_blank st"
  shows "comments_body st l = st\<lparr>result := result st @ [l]\<rparr>"
  using assms
  by (cases st) (simp add: comments_body_def plain_comments_def Let_def no_match_re_sub)

lemma plain_comments_fold:
  assumes "list_all plain_comments ls" "\<not> in_javadoc st" "\<not> skip_next_blank st"
  shows "foldl comments_body st ls = st\<lparr>result := result st @ ls\<rparr>"
  using assms
proof (induction ls arbitrary: st)
  case Nil
  then show ?case by simp
next
  case (Cons l ls)
  then have "comments_body st l = st\<lparr>result := result st @ [l]\<rparr>"
    by (simp add: plain_comments_step)
  moreover have "foldl comments_body (st\<lparr>result := result st @ [l]\<rparr>) ls
      = st\<lparr>result := result st @ [l]\<rparr>\<lparr>result := result (st\<lparr>result := result st @ [l]\<rparr>) @ ls\<rparr>"
    using Cons.prems by (intro Cons.IH) simp_all
  ultimately show ?case by simp
qed

lemma plain_better_step:
  assumes "plain_better l" "\<not> in_javadoc st" "\<not> in_block_comment st" "\<not> skip_next_blank st"
  shows "better_body st l = st\<lparr>result := result st @ [l]\<rparr>"
  using assms
  by (cases st) (simp add: better_body_def plain_better_def Let_def)

lemma plain_better_fold:
  assumes "list_all plain_better ls" "\<not> in_javadoc st" "\<not> in_block_comment st"
    "\<not> skip_next_blank st"
  shows "foldl better_body st ls = st\<lparr>result := result st @ ls\<rparr>"
  using assms
proof (induction ls arbitrary: st)
  case Nil
  then show ?case by simp
next
  case (Cons l ls)
  then have "better_body st l = st\<lparr>result := result st @ [l]\<rparr>"
    by (simp add: plain_better_step)
  moreover have "foldl better_body (st\<lparr>result := result st @ [l]\<rparr>) ls
      = st\<lparr>result := result st @ [l]\<rparr>\<lparr>result := result (st\<lparr>result := result st @ [l]\<rparr>) @ ls\<rparr>"
    using Cons.prems by (intro Cons.IH) simp_all
  ultimately show ?case by simp
qed

lemma plain_comments_id: "list_all plain_comments lines \<Longrightarrow> simplify_comments lines = lines"
  by (simp add: simplify_comments_def plain_comments_fold comments_init_def)

lemma plain_better_id: "list_all plain_better lines \<Longrightarrow> simplify_better lines = lines"
  by (simp add: simplify_better_def plain_better_fold better_init_def)

lemma better_emits_plain: "better_emits st l \<Longrightarrow> plain_better l"
  by (simp add: better_emits_def better_body_def plain_better_def Let_def split: if_splits)

lemma comments_emits_plain:
  "comments_emits st l \<Longrightarrow> \<not> matches_somewhere inline_comments l \<Longrightarrow> plain_comments l"
  by (simp add: comments_emits_def comments_body_def plain_comments_def Let_def split: if_splits)

lemma better_output_plain: "list_all plain_better (simplify_better lines)"
proof -
  have "simplify_better lines = map (\<lambda>i. lines ! i)
      (filter (\<lambda>i. better_emits (better_before lines i) (lines ! i)) [0 ..< length lines])"
    using better_kept_map [of lines "length lines"] by (simp add: better_before_all)
  then show ?thesis by (auto simp: list_all_iff better_emits_plain)
qed

lemma comments_output_plain:
  assumes "list_all (\<lambda>l. \<not> matches_somewhere inline_comments l) lines"
  shows "list_all plain_comments (simplify_comments lines)"
proof -
  have n: "\<not> matches_somewhere inline_comments (lines ! i)" if "i < length lines" for i
    using assms that by (simp add: list_all_length)
  have "simplify_comments lines = map (\<lambda>i. re_sub_empty inline_comments (lines ! i))
      (filter (\<lambda>i. comments_emits (comments_before lines i) (lines ! i)) [0 ..< length lines])"
    using comments_kept_map [of lines "length lines"] by (simp add: comments_before_all)
  then show ?thesis
    using n by (auto simp: list_all_iff no_match_re_sub comments_emits_plain)
qed

text \<open>
  Claim C7 (idempotence, both passes). Running the richer pass twice gives what running it
  once gives, for every input in whose lines the inline pattern matches nowhere (no
  action-verb marker after a \<^verbatim>\<open>//\<close>); running the simpler pass twice gives what running it
  once gives, for every input. Both cover the input the claim is about, which has no doc
  comment openers or closers, no dividers and no markers; such input, made of plain lines
  only, is returned as it is.
\<close>

theorem idempotent_on_simplified_input:
  "(list_all (\<lambda>l. \<not> matches_somewhere inline_comments l) lines \<longrightarrow>
      simplify_comments (simplify_comments lines) = simplify_comments lines)
   \<and> simplify_better (simplify_better lines) = simplify_better lines
   \<and> (list_all plain_comments lines \<longrightarrow> simplify_comments lines = lines)
   \<and> (list_all plain_better lines \<longrightarrow> simplify_better lines = lines)"
  by (simp add: plain_comments_id plain_better_id comments_output_plain better_output_plain)

theorem idempotent_on_simplified_input_witness:
  "simplify_comments (simplify_comments [''/** doc */'', ''*/'', [nl], ''// === a'', ''int x; // n''])
     = simplify_comments [''/** doc */'', ''*/'', [nl], ''// === a'', ''int x; // n'']
   \<and> simplify_comments [''int x = 1; // counter'' @ [nl], [nl], ''f(x);'']
     = [''int x = 1; // counter'' @ [nl], [nl], ''f(x);'']
   \<and> simplify_better [''int x = 1; // counter'' @ [nl], [nl], ''f(x);'']
     = [''int x = 1; // counter'' @ [nl], [nl], ''f(x);'']"
  using idempotent_on_simplified_input [of "[''/** doc */'', ''*/'', [nl], ''// === a'', ''int x; // n'']"]
    idempotent_on_simplified_input [of "[''int x = 1; // counter'' @ [nl], [nl], ''f(x);'']"]
  by (simp add: plain_comments_def plain_better_def strip_def isspace_def startswith_def
      re_match_def divider_comments_def divider_better_def noise_comments_def noise_markers_def
      inline_comments_def action_markers_def)

end
